theory Spec2Isabelle
  imports Main
begin

section \<open>The test-database pool of integresql (pkg/pool/pool.go)\<close>

subsection \<open>Data model\<close>

text \<open>
  The sentinel errors of \<^verbatim>\<open>pool.go\<close>. \<open>ErrCallback\<close> stands for any other error value
  that a caller-supplied \<^verbatim>\<open>initFunc\<close> or \<^verbatim>\<open>removeFunc\<close> returns, and \<open>PanicIndexOutOfRange\<close>
  for the run-time panic of a slice access outside its bounds.
\<close>

datatype error =
    ErrUnknownHash
  | ErrPoolFull
  | ErrUnknownID
  | ErrNoDBReady
  | ErrInvalidIndex
  | ErrCallback string
  | PanicIndexOutOfRange

text \<open>
  Modelled from the spec: the types \<^verbatim>\<open>db.DatabaseConfig\<close>, \<^verbatim>\<open>db.Database\<close> and
  \<^verbatim>\<open>db.TestDatabase\<close> are declared in package \<^verbatim>\<open>pkg/db\<close>, which is not among the source
  files. The records carry the fields the source files read and write: the connection
  parameters set in \<^verbatim>\<open>DefaultManagerConfigFromEnv\<close>, and \<^verbatim>\<open>TemplateHash\<close>, \<^verbatim>\<open>Config\<close>,
  \<^verbatim>\<open>Config.Database\<close> and \<^verbatim>\<open>ID\<close> used by the pool. The struct \<^verbatim>\<open>db.Database\<close> that
  \<^verbatim>\<open>db.TestDatabase\<close> embeds is the field \<open>Embedded\<close>.
\<close>

record DatabaseConfig =
  Host :: string
  Port :: int
  Username :: string
  Password :: string
  Database :: string

record Database =
  TemplateHash :: string
  Config :: DatabaseConfig

record TestDatabase =
  Embedded :: Database
  ID :: int

text \<open>
  \<^verbatim>\<open>type dbIDMap map[int]bool\<close>: a finite map from ids to flags. \<^verbatim>\<open>len(m) > 0\<close> is
  \<open>dom m \<noteq> {}\<close>, \<^verbatim>\<open>m[id]\<close> read as a value is the stored flag, or \<^verbatim>\<open>false\<close> for a missing key.
\<close>

type_synonym dbIDMap = "int \<rightharpoonup> bool"

definition index_flag :: "dbIDMap \<Rightarrow> int \<Rightarrow> bool" where
  "index_flag idMap dbid = (case idMap dbid of None \<Rightarrow> False | Some b \<Rightarrow> b)"

record dbHashPool =
  dbs :: "TestDatabase list"
  ready :: dbIDMap
  dirty :: dbIDMap

text \<open>
  \<^verbatim>\<open>DBPool.pools\<close> maps a hash to a pointer to its \<^verbatim>\<open>dbHashPool\<close>. No two hashes share a
  pointer, so the map holds the pool values themselves, and a mutation through the pointer
  is an update of the map at that hash. The mutexes are not modelled: every operation
  holds the lock of the hash pool it works on from its first access to its return, so each
  call is one atomic step.
\<close>

record DBPool =
  pools :: "string \<rightharpoonup> dbHashPool"
  maxPoolSize :: int

definition NewDBPool :: "int \<Rightarrow> DBPool" where
  "NewDBPool n = \<lparr>pools = Map.empty, maxPoolSize = n\<rparr>"

definition newDBHashPool :: "int \<Rightarrow> dbHashPool" where
  "newDBHashPool n = \<lparr>dbs = [], ready = Map.empty, dirty = Map.empty\<rparr>"

subsection \<open>popFirstKey and GetDB\<close>

text \<open>
  \<^verbatim>\<open>popFirstKey\<close> takes the key that \<^verbatim>\<open>range\<close> yields first. Go leaves the iteration order
  of a map unspecified, so the model returns every outcome: one per key of the map, or the
  single outcome \<open>-1\<close> with the map unchanged when the map is empty.
\<close>

definition popFirstKey :: "dbIDMap \<Rightarrow> (int \<times> dbIDMap) set" where
  "popFirstKey idMap =
     (\<lambda>dbid. (dbid, idMap(dbid := None))) ` (if dom idMap = {} then {- 1} else dom idMap)"

text \<open>
  The result of \<^verbatim>\<open>GetDB\<close> is \<open>Inl err\<close> when \<^verbatim>\<open>err\<close> is not nil, and \<open>Inr (db, isDirty)\<close>
  otherwise. \<open>GetDB_pick\<close> is the code after the index has been popped: the two bounds
  checks and the read of \<^verbatim>\<open>pool.dbs[index]\<close>.
\<close>

definition GetDB_pick ::
  "DBPool \<Rightarrow> string \<Rightarrow> dbHashPool \<Rightarrow> int \<Rightarrow> bool \<Rightarrow> (error + TestDatabase \<times> bool) \<times> DBPool" where
  "GetDB_pick p hash pool index isDirty =
     (let p' = p\<lparr>pools := (pools p)(hash \<mapsto> pool)\<rparr> in
      if index < 0 \<or> index \<ge> maxPoolSize p then (Inl ErrInvalidIndex, p')
      else if int (length (dbs pool)) \<le> index then (Inl ErrInvalidIndex, p')
      else (Inr (dbs pool ! nat index, isDirty), p'))"

definition GetDB :: "DBPool \<Rightarrow> string \<Rightarrow> ((error + TestDatabase \<times> bool) \<times> DBPool) set" where
  "GetDB p hash =
     (case pools p hash of
        None \<Rightarrow> {(Inl ErrUnknownHash, p)}
      | Some pool \<Rightarrow>
          if dom (ready pool) \<noteq> {} then
            (\<lambda>(index, ready'). GetDB_pick p hash (pool\<lparr>ready := ready'\<rparr>) index False)
              ` popFirstKey (ready pool)
          else if dom (dirty pool) = {} then {(Inl ErrNoDBReady, p)}
          else
            (\<lambda>(index, dirty'). GetDB_pick p hash (pool\<lparr>dirty := dirty'\<rparr>) index True)
              ` popFirstKey (dirty pool))"

subsection \<open>AddTestDatabase\<close>

text \<open>
  \<^verbatim>\<open>fmt.Sprintf("%s%03d", dbNamePrefix, index)\<close>: the decimal digits of the number, padded
  with zeros on the left to a width of at least three, the sign of a negative number
  counting towards the width.
\<close>

definition digit_char :: "nat \<Rightarrow> char" where
  "digit_char d = ''0123456789'' ! d"

function decimal :: "nat \<Rightarrow> string" where
  "decimal n = (if n < 10 then [digit_char n] else decimal (n div 10) @ [digit_char (n mod 10)])"
  by pat_completeness auto
termination
  by (relation "measure (\<lambda>n. n)") auto

declare decimal.simps [simp del]

definition zero_pad :: "nat \<Rightarrow> string \<Rightarrow> string" where
  "zero_pad width s = replicate (width - length s) (CHR ''0'') @ s"

definition fmt_03d :: "int \<Rightarrow> string" where
  "fmt_03d n =
     (if n < 0 then CHR ''-'' # zero_pad 2 (decimal (nat (- n))) else zero_pad 3 (decimal (nat n)))"

text \<open>
  \<^verbatim>\<open>initFunc\<close> and \<^verbatim>\<open>removeFunc\<close> are callbacks with effects outside the pool (they create and
  drop databases). They are functions on a state \<open>'w\<close> of the outside world, returning the
  error (\<open>None\<close> for nil) and the new state.
\<close>

type_synonym 'w callback = "TestDatabase \<Rightarrow> 'w \<Rightarrow> error option \<times> 'w"

definition AddTestDatabase ::
  "DBPool \<Rightarrow> Database \<Rightarrow> string \<Rightarrow> 'w callback \<Rightarrow> 'w \<Rightarrow> (error + TestDatabase) \<times> DBPool \<times> 'w" where
  "AddTestDatabase p template dbNamePrefix initFunc w =
     (let hash = TemplateHash template;
          pool = (case pools p hash of None \<Rightarrow> newDBHashPool (maxPoolSize p) | Some pl \<Rightarrow> pl);
          p1 = p\<lparr>pools := (pools p)(hash \<mapsto> pool)\<rparr>;
          index = int (length (dbs pool))
      in
        if index \<ge> maxPoolSize p then (Inl ErrPoolFull, p1, w)
        else
          let dbName = dbNamePrefix @ fmt_03d index;
              newTestDB = \<lparr>Embedded = \<lparr>TemplateHash = TemplateHash template,
                                       Config = (Config template)\<lparr>Database := dbName\<rparr>\<rparr>,
                           ID = index\<rparr>
          in
            case initFunc newTestDB w of
              (Some err, w') \<Rightarrow> (Inl err, p1, w')
            | (None, w') \<Rightarrow>
                (Inr newTestDB,
                 p\<lparr>pools := (pools p)(hash \<mapsto>
                      pool\<lparr>dbs := dbs pool @ [newTestDB], ready := (ready pool)(index \<mapsto> True)\<rparr>)\<rparr>,
                 w'))"

subsection \<open>ReturnTestDatabase\<close>

definition ReturnTestDatabase :: "DBPool \<Rightarrow> string \<Rightarrow> int \<Rightarrow> error option \<times> DBPool" where
  "ReturnTestDatabase p hash dbid =
     (if dbid < 0 \<or> dbid \<ge> maxPoolSize p then (Some ErrInvalidIndex, p)
      else
        case pools p hash of
          None \<Rightarrow> (Some ErrUnknownHash, p)
        | Some pool \<Rightarrow>
            if dom (dirty pool) \<noteq> {} \<and> index_flag (dirty pool) dbid then (Some ErrUnknownID, p)
            else (None, p\<lparr>pools := (pools p)(hash \<mapsto> pool\<lparr>dirty := (dirty pool)(dbid \<mapsto> True)\<rparr>)\<rparr>))"

subsection \<open>removeAllFromPool, RemoveAllWithHash and RemoveAll\<close>

text \<open>
  The loop of \<^verbatim>\<open>removeAllFromPool\<close>, with its counter \<^verbatim>\<open>id\<close> as the argument. The access
  \<^verbatim>\<open>pool.dbs[id]\<close> panics outside the slice; the truncation \<^verbatim>\<open>pool.dbs[:len(pool.dbs)-1]\<close>
  follows it, so the slice is not empty there.
\<close>

function removeAll_loop ::
  "int \<Rightarrow> dbHashPool \<Rightarrow> 'w callback \<Rightarrow> 'w \<Rightarrow> error option \<times> dbHashPool \<times> 'w" where
  "removeAll_loop dbid pool removeFunc w =
     (if dbid \<ge> 0 then
        if int (length (dbs pool)) \<le> dbid then (Some PanicIndexOutOfRange, pool, w)
        else
          case removeFunc (dbs pool ! nat dbid) w of
            (Some err, w') \<Rightarrow> (Some err, pool, w')
          | (None, w') \<Rightarrow>
              removeAll_loop (dbid - 1)
                (pool\<lparr>dbs := take (length (dbs pool) - 1) (dbs pool),
                      dirty := (dirty pool)(dbid := None),
                      ready := (ready pool)(dbid := None)\<rparr>)
                removeFunc w'
      else (None, pool, w))"
  by pat_completeness auto
termination
  by (relation "measure (\<lambda>(dbid, pool, removeFunc, w). nat (dbid + 1))") auto

declare removeAll_loop.simps [simp del]

definition removeAllFromPool ::
  "dbHashPool \<Rightarrow> 'w callback \<Rightarrow> 'w \<Rightarrow> error option \<times> dbHashPool \<times> 'w" where
  "removeAllFromPool pool removeFunc w =
     removeAll_loop (int (length (dbs pool)) - 1) pool removeFunc w"

definition RemoveAllWithHash ::
  "DBPool \<Rightarrow> string \<Rightarrow> 'w callback \<Rightarrow> 'w \<Rightarrow> error option \<times> DBPool \<times> 'w" where
  "RemoveAllWithHash p hash removeFunc w =
     (case pools p hash of
        None \<Rightarrow> (Some ErrUnknownHash, p, w)
      | Some pool \<Rightarrow>
          (case removeAllFromPool pool removeFunc w of
             (err, pool', w') \<Rightarrow> (err, p\<lparr>pools := (pools p)(hash \<mapsto> pool')\<rparr>, w')))"

text \<open>
  \<^verbatim>\<open>RemoveAll\<close> ranges over \<^verbatim>\<open>p.pools\<close> and deletes the entry it is at; Go yields every key
  once, in an unspecified order. The order is the argument \<open>order\<close>: a list of the keys of
  \<^verbatim>\<open>p.pools\<close>, each once. A hash that has no entry is not yielded.
\<close>

fun RemoveAll_range ::
  "string list \<Rightarrow> DBPool \<Rightarrow> 'w callback \<Rightarrow> 'w \<Rightarrow> error option \<times> DBPool \<times> 'w" where
  "RemoveAll_range [] p removeFunc w = (None, p, w)"
| "RemoveAll_range (hash # rest) p removeFunc w =
     (case pools p hash of
        None \<Rightarrow> RemoveAll_range rest p removeFunc w
      | Some pool \<Rightarrow>
          (case removeAllFromPool pool removeFunc w of
             (Some err, pool', w') \<Rightarrow> (Some err, p\<lparr>pools := (pools p)(hash \<mapsto> pool')\<rparr>, w')
           | (None, pool', w') \<Rightarrow>
               RemoveAll_range rest (p\<lparr>pools := (pools p)(hash := None)\<rparr>) removeFunc w'))"

definition range_order :: "DBPool \<Rightarrow> string list \<Rightarrow> bool" where
  "range_order p order = (distinct order \<and> set order = dom (pools p))"

definition RemoveAll ::
  "string list \<Rightarrow> DBPool \<Rightarrow> 'w callback \<Rightarrow> 'w \<Rightarrow> error option \<times> DBPool \<times> 'w" where
  "RemoveAll order p removeFunc w = RemoveAll_range order p removeFunc w"

subsection \<open>Sequences of calls\<close>

text \<open>
  The pool keeps the two index maps \<open>ready\<close> and \<open>dirty\<close> only. A slot is handed out when
  its id indexes \<open>dbs\<close> and is in neither map.
\<close>

definition inUse :: "dbHashPool \<Rightarrow> int set" where
  "inUse pool = {i. 0 \<le> i \<and> i < int (length (dbs pool))} - dom (ready pool) - dom (dirty pool)"

definition handed_out :: "DBPool \<Rightarrow> string \<Rightarrow> int \<Rightarrow> bool" where
  "handed_out p hash dbid = (case pools p hash of None \<Rightarrow> False | Some pool \<Rightarrow> dbid \<in> inUse pool)"

text \<open>
  One call of an exported operation, on the pool and the outside world, with any arguments
  and any callbacks. With \<open>returns_checked\<close> set, callers pass \<^verbatim>\<open>ReturnTestDatabase\<close> only
  ids that are handed out; without it they pass any id.
\<close>

inductive step :: "bool \<Rightarrow> DBPool \<times> 'w \<Rightarrow> DBPool \<times> 'w \<Rightarrow> bool" for returns_checked :: bool where
  step_GetDB:
    "(r, p') \<in> GetDB p hash \<Longrightarrow> step returns_checked (p, w) (p', w)"
| step_AddTestDatabase:
    "AddTestDatabase p template dbNamePrefix initFunc w = (r, p', w') \<Longrightarrow>
     step returns_checked (p, w) (p', w')"
| step_ReturnTestDatabase:
    "ReturnTestDatabase p hash dbid = (e, p') \<Longrightarrow>
     (returns_checked \<longrightarrow> handed_out p hash dbid) \<Longrightarrow>
     step returns_checked (p, w) (p', w)"
| step_RemoveAllWithHash:
    "RemoveAllWithHash p hash removeFunc w = (e, p', w') \<Longrightarrow>
     step returns_checked (p, w) (p', w')"
| step_RemoveAll:
    "range_order p order \<Longrightarrow> RemoveAll order p removeFunc w = (e, p', w') \<Longrightarrow>
     step returns_checked (p, w) (p', w')"

inductive reachable :: "bool \<Rightarrow> int \<Rightarrow> DBPool \<times> 'w \<Rightarrow> bool"
  for returns_checked :: bool and n :: int where
  reachable_init: "reachable returns_checked n (NewDBPool n, w)"
| reachable_step:
    "reachable returns_checked n s \<Longrightarrow> step returns_checked s s' \<Longrightarrow>
     reachable returns_checked n s'"

text \<open>
  A callback that records the databases it is called with, in the order of the calls,
  besides doing what \<open>f\<close> does.
\<close>

definition logged :: "'w callback \<Rightarrow> ('w \<times> TestDatabase list) callback" where
  "logged f db = (\<lambda>(w, calls). case f db w of (e, w') \<Rightarrow> (e, (w', calls @ [db])))"

subsection \<open>Auxiliary definitions\<close>

text \<open>
  \<open>masked k n m\<close> is the map \<open>m\<close> without the keys from \<open>k\<close> up to \<open>n - 1\<close>; \<open>pool_for\<close> is the
  hash pool that \<^verbatim>\<open>AddTestDatabase\<close> works on (the existing one, or a new one), and
  \<open>new_slot\<close> the test database it builds. \<open>pool_ok\<close> is the invariant of a hash pool: the
  ids in \<open>ready\<close> index \<open>dbs\<close> and are below the maximal pool size, the ids in \<open>dirty\<close>
  are inside \<open>[0, n)\<close>, and \<open>dbs\<close> has at most \<open>n\<close> elements; with \<open>strict\<close>, moreover, no id
  of \<open>dirty\<close> is in \<open>ready\<close> and every id of \<open>dirty\<close> indexes \<open>dbs\<close>.
\<close>

definition masked :: "nat \<Rightarrow> nat \<Rightarrow> dbIDMap \<Rightarrow> dbIDMap" where
  "masked k n m = (\<lambda>j. if int k \<le> j \<and> j < int n then None else m j)"

definition pool_ok :: "bool \<Rightarrow> int \<Rightarrow> dbHashPool \<Rightarrow> bool" where
  "pool_ok strict n pool =
     ((\<forall>i. ready pool i \<noteq> None \<longrightarrow> 0 \<le> i \<and> i < int (length (dbs pool)) \<and> i < n) \<and>
      (\<forall>i. dirty pool i \<noteq> None \<longrightarrow> 0 \<le> i \<and> i < n) \<and>
      (0 \<le> n \<longrightarrow> int (length (dbs pool)) \<le> n) \<and>
      (strict \<longrightarrow> (\<forall>i. dirty pool i \<noteq> None \<longrightarrow>
         ready pool i = None \<and> i < int (length (dbs pool)))))"

definition DBPool_ok :: "bool \<Rightarrow> int \<Rightarrow> DBPool \<Rightarrow> bool" where
  "DBPool_ok strict n p =
     (maxPoolSize p = n \<and> (\<forall>h pool. pools p h = Some pool \<longrightarrow> pool_ok strict n pool))"

definition pool_for :: "DBPool \<Rightarrow> string \<Rightarrow> dbHashPool" where
  "pool_for p hash = (case pools p hash of None \<Rightarrow> newDBHashPool (maxPoolSize p) | Some pl \<Rightarrow> pl)"

definition new_slot :: "Database \<Rightarrow> string \<Rightarrow> int \<Rightarrow> TestDatabase" where
  "new_slot template prefix index =
     \<lparr>Embedded = \<lparr>TemplateHash = TemplateHash template,
                  Config = (Config template)\<lparr>Database := prefix @ fmt_03d index\<rparr>\<rparr>,
      ID = index\<rparr>"

text \<open>
  \<open>slots_kept pool pool'\<close>: every index that both pools have holds the same test database.
\<close>

definition slots_kept :: "dbHashPool \<Rightarrow> dbHashPool \<Rightarrow> bool" where
  "slots_kept pool pool' =
     (\<forall>i. i < length (dbs pool) \<and> i < length (dbs pool') \<longrightarrow> dbs pool' ! i = dbs pool ! i)"

text \<open>
  \<open>calls_of p hashes\<close>: the slots of the pools of the given hashes, pool after pool, each pool
  from its last slot to its first.
\<close>

definition calls_of :: "DBPool \<Rightarrow> string list \<Rightarrow> TestDatabase list" where
  "calls_of p hashes = concat (map (\<lambda>h. rev (dbs (the (pools p h)))) hashes)"

subsection \<open>Example values\<close>

definition always_ok :: "'w callback" where
  "always_ok db w = (None, w)"


definition template_abc :: Database where
  "template_abc =
     \<lparr>TemplateHash = ''abc'',
      Config = \<lparr>Host = ''127.0.0.1'', Port = 5432, Username = ''postgres'', Password = [],
                Database = ''template_abc''\<rparr>\<rparr>"

definition empty_pool_abc :: DBPool where
  "empty_pool_abc = (NewDBPool 2)\<lparr>pools := [''abc'' \<mapsto> newDBHashPool 2]\<rparr>"

text \<open>
  States of a pool of maximal size 2 for the template \<open>abc\<close>: after the first
  \<^verbatim>\<open>AddTestDatabase\<close>, after a \<^verbatim>\<open>GetDB\<close> that hands the slot out, after its return, and after
  two returns of ids that were not handed out.
\<close>

definition slot_abc_000 :: TestDatabase where
  "slot_abc_000 = new_slot template_abc ''test_abc_'' 0"

definition one_ready_abc :: DBPool where
  "one_ready_abc =
     \<lparr>pools = [''abc'' \<mapsto> \<lparr>dbs = [slot_abc_000], ready = [0 \<mapsto> True], dirty = Map.empty\<rparr>],
      maxPoolSize = 2\<rparr>"

definition one_in_use_abc :: DBPool where
  "one_in_use_abc =
     \<lparr>pools = [''abc'' \<mapsto> \<lparr>dbs = [slot_abc_000], ready = Map.empty, dirty = Map.empty\<rparr>],
      maxPoolSize = 2\<rparr>"

definition one_dirty_abc :: DBPool where
  "one_dirty_abc =
     \<lparr>pools = [''abc'' \<mapsto> \<lparr>dbs = [slot_abc_000], ready = Map.empty, dirty = [0 \<mapsto> True]\<rparr>],
      maxPoolSize = 2\<rparr>"

definition ready_and_dirty_abc :: DBPool where
  "ready_and_dirty_abc =
     \<lparr>pools = [''abc'' \<mapsto> \<lparr>dbs = [slot_abc_000], ready = [0 \<mapsto> True],
                            dirty = [0 \<mapsto> True, 1 \<mapsto> True]\<rparr>],
      maxPoolSize = 2\<rparr>"

definition two_ready_abc :: DBPool where
  "two_ready_abc =
     \<lparr>pools = [''abc'' \<mapsto> \<lparr>dbs = [slot_abc_000, new_slot template_abc ''test_abc_'' 1],
                            ready = [0 \<mapsto> True, 1 \<mapsto> True], dirty = Map.empty\<rparr>],
      maxPoolSize = 2\<rparr>"

text \<open>
  The second slot of the template \<open>abc\<close>, the hash pool with both slots ready, and a callback
  that fails for the test database with the given id.
\<close>

definition slot_abc_001 :: TestDatabase where
  "slot_abc_001 = new_slot template_abc ''test_abc_'' 1"

definition two_ready :: dbHashPool where
  "two_ready = \<lparr>dbs = [slot_abc_000, slot_abc_001], ready = [0 \<mapsto> True, 1 \<mapsto> True],
                 dirty = Map.empty\<rparr>"

definition failing_on :: "int \<Rightarrow> 'w callback" where
  "failing_on i db w = (if ID db = i then (Some (ErrCallback ''failed''), w) else (None, w))"

section \<open>Properties\<close>

subsection \<open>Auxiliary facts\<close>

lemma removeAll_loop_result:
  "int (length (dbs pool)) = i + 1 \<Longrightarrow> removeAll_loop i pool f w = (e, pool', w') \<Longrightarrow>
   \<exists>k \<le> length (dbs pool).
     dbs pool' = take k (dbs pool) \<and>
     ready pool' = masked k (length (dbs pool)) (ready pool) \<and>
     dirty pool' = masked k (length (dbs pool)) (dirty pool) \<and>
     (e = None \<longrightarrow> k = 0) \<and>
     (e \<noteq> None \<longrightarrow> 0 < k \<and> (\<exists>v. fst (f (dbs pool ! (k - 1)) v) = e))"
proof (induction i pool f w rule: removeAll_loop.induct)
  case (1 i pool f w)
  let ?n = "length (dbs pool)"
  show ?case
  proof (cases "0 \<le> i")
    case False
    with "1.prems" have "e = None" "pool' = pool"
      by (auto simp: removeAll_loop.simps [of i])
    moreover from False "1.prems"(1) have "?n = 0"
      by (cases "dbs pool") auto
    ultimately show ?thesis by (auto simp: masked_def fun_eq_iff)
  next
    case True
    with "1.prems" have n: "?n = nat i + 1" "\<not> int ?n \<le> i" by auto
    have unfold: "removeAll_loop i pool f w =
        (case f (dbs pool ! nat i) w of
           (Some err, w') \<Rightarrow> (Some err, pool, w')
         | (None, w') \<Rightarrow>
             removeAll_loop (i - 1)
               (pool\<lparr>dbs := take (?n - 1) (dbs pool), dirty := (dirty pool)(i := None),
                     ready := (ready pool)(i := None)\<rparr>) f w')"
      using True n(2) by (subst removeAll_loop.simps) simp
    obtain r v where fv: "f (dbs pool ! nat i) w = (r, v)" by (cases "f (dbs pool ! nat i) w")
    show ?thesis
    proof (cases r)
      case (Some err)
      with fv "1.prems"(2) have "e = Some err" "pool' = pool"
        by (simp_all add: unfold)
      with n fv Some show ?thesis
        by (intro exI [of _ ?n]) (auto simp: masked_def fun_eq_iff intro: exI [of _ w])
    next
      case None
      let ?pool2 = "pool\<lparr>dbs := take (?n - 1) (dbs pool), dirty := (dirty pool)(i := None),
                          ready := (ready pool)(i := None)\<rparr>"
      from fv None "1.prems"(2)
      have run: "removeAll_loop (i - 1) ?pool2 f v = (e, pool', w')"
        by (simp add: unfold)
      have len2: "int (length (dbs ?pool2)) = i - 1 + 1" using n(1) True by simp
      from "1.IH" [OF True n(2) fv [symmetric] None len2 run]
      obtain k where k: "k \<le> length (dbs ?pool2)" "dbs pool' = take k (dbs ?pool2)"
        "ready pool' = masked k (length (dbs ?pool2)) (ready ?pool2)"
        "dirty pool' = masked k (length (dbs ?pool2)) (dirty ?pool2)"
        "e = None \<longrightarrow> k = 0"
        "e \<noteq> None \<longrightarrow> 0 < k \<and> (\<exists>v. fst (f (dbs ?pool2 ! (k - 1)) v) = e)"
        by blast
      have kn: "k \<le> nat i" using k(1) n by simp
      have "dbs pool' = take k (dbs pool)" using k(2) kn n by (simp add: min_def)
      moreover have "ready pool' = masked k ?n (ready pool)"
        using k(3) kn n True by (auto simp: masked_def fun_eq_iff)
      moreover have "dirty pool' = masked k ?n (dirty pool)"
        using k(4) kn n True by (auto simp: masked_def fun_eq_iff)
      moreover have "e \<noteq> None \<longrightarrow> 0 < k \<and> (\<exists>v. fst (f (dbs pool ! (k - 1)) v) = e)"
        using k(6) kn n by (auto simp: nth_take)
      ultimately show ?thesis using k(5) kn n by (intro exI [of _ k]) auto
    qed
  qed
qed

lemma logged_fst: "fst (logged f db s) = fst (f db (fst s))"
  by (simp add: logged_def split: prod.splits)

lemma removeAll_loop_logged:
  "int (length (dbs pool)) = i + 1 \<Longrightarrow>
   removeAll_loop i pool g s = (e, pool', s') \<Longrightarrow> g = logged f \<Longrightarrow>
   snd s' = snd s @ rev (drop (length (dbs pool') - (if e = None then 0 else 1)) (dbs pool))"
proof (induction i pool g s rule: removeAll_loop.induct)
  case (1 i pool g s)
  let ?n = "length (dbs pool)"
  show ?case
  proof (cases "0 \<le> i")
    case False
    with "1.prems" have "e = None" "pool' = pool" "s' = s"
      by (auto simp: removeAll_loop.simps [of i])
    moreover from False "1.prems"(1) have "?n = 0"
      by (cases "dbs pool") auto
    ultimately show ?thesis by simp
  next
    case True
    with "1.prems" have n: "?n = nat i + 1" "\<not> int ?n \<le> i" by auto
    have unfold: "removeAll_loop i pool g s =
        (case g (dbs pool ! nat i) s of
           (Some err, w') \<Rightarrow> (Some err, pool, w')
         | (None, w') \<Rightarrow>
             removeAll_loop (i - 1)
               (pool\<lparr>dbs := take (?n - 1) (dbs pool), dirty := (dirty pool)(i := None),
                     ready := (ready pool)(i := None)\<rparr>) g w')"
      using True n(2) by (subst removeAll_loop.simps) simp
    obtain r v where gv: "g (dbs pool ! nat i) s = (r, v)" by (cases "g (dbs pool ! nat i) s")
    have v: "snd v = snd s @ [dbs pool ! nat i]"
      using gv "1.prems"(3) by (auto simp: logged_def split: prod.splits)
    have last: "drop (nat i) (dbs pool) = [dbs pool ! nat i]"
      using n(1) by (metis Suc_eq_plus1 append_Nil drop_all id_take_nth_drop lessI order_refl take_all_iff drop_eq_Nil Cons_nth_drop_Suc)
    show ?thesis
    proof (cases r)
      case (Some err)
      with gv "1.prems"(2) have "e = Some err" "pool' = pool" "s' = v"
        by (simp_all add: unfold)
      with n v last show ?thesis by simp
    next
      case None
      let ?pool2 = "pool\<lparr>dbs := take (?n - 1) (dbs pool), dirty := (dirty pool)(i := None),
                          ready := (ready pool)(i := None)\<rparr>"
      from gv None "1.prems"(2)
      have run: "removeAll_loop (i - 1) ?pool2 g v = (e, pool', s')"
        by (simp add: unfold)
      have len2: "int (length (dbs ?pool2)) = i - 1 + 1" using n(1) True by simp
      from removeAll_loop_result [OF len2 run]
      have le: "length (dbs pool') \<le> nat i" using n(1) by auto
      let ?m = "length (dbs pool') - (if e = None then 0 else 1)"
      have m: "?m \<le> nat i" using le by simp
      from "1.IH" [OF True n(2) gv [symmetric] None len2 run "1.prems"(3)]
      have "snd s' = snd v @ rev (drop ?m (take (nat i) (dbs pool)))"
        using n(1) by simp
      moreover have "drop ?m (dbs pool) = drop ?m (take (nat i) (dbs pool)) @ [dbs pool ! nat i]"
      proof -
        have "dbs pool = take (nat i) (dbs pool) @ drop (nat i) (dbs pool)" by simp
        then have "drop ?m (dbs pool) = drop ?m (take (nat i) (dbs pool) @ [dbs pool ! nat i])"
          using last by simp
        then show ?thesis using m n(1) by simp
      qed
      ultimately show ?thesis using v by simp
    qed
  qed
qed

lemma DBPool_ok_update:
  "DBPool_ok b n p \<Longrightarrow> pool_ok b n pool \<Longrightarrow> DBPool_ok b n (p\<lparr>pools := (pools p)(h \<mapsto> pool)\<rparr>)"
  by (simp add: DBPool_ok_def)

lemma DBPool_ok_delete:
  "DBPool_ok b n p \<Longrightarrow> DBPool_ok b n (p\<lparr>pools := (pools p)(h := None)\<rparr>)"
  by (simp add: DBPool_ok_def)

lemma NewDBPool_ok: "DBPool_ok b n (NewDBPool n)"
  by (simp add: DBPool_ok_def NewDBPool_def)

lemma newDBHashPool_ok: "pool_ok b n (newDBHashPool m)"
  by (simp add: pool_ok_def newDBHashPool_def)

lemma pool_ok_pop_ready: "pool_ok b n pool \<Longrightarrow> pool_ok b n (pool\<lparr>ready := (ready pool)(i := None)\<rparr>)"
  by (auto simp: pool_ok_def)

lemma pool_ok_pop_dirty: "pool_ok b n pool \<Longrightarrow> pool_ok b n (pool\<lparr>dirty := (dirty pool)(i := None)\<rparr>)"
  by (auto simp: pool_ok_def)

lemma GetDB_pick_pools:
  "GetDB_pick p hash pool index isDirty = (r, p') \<Longrightarrow> p' = p\<lparr>pools := (pools p)(hash \<mapsto> pool)\<rparr>"
  by (auto simp: GetDB_pick_def Let_def split: if_splits)

lemma GetDB_ok:
  assumes "DBPool_ok b n p" "(r, p') \<in> GetDB p hash"
  shows "DBPool_ok b n p'"
proof (cases "pools p hash")
  case None
  with assms show ?thesis by (simp add: GetDB_def)
next
  case (Some pool)
  with assms(1) have ok: "pool_ok b n pool" by (simp add: DBPool_ok_def)
  from assms(2) Some consider
      (unchanged) "p' = p"
    | (ready) i where "p' = p\<lparr>pools := (pools p)(hash \<mapsto> pool\<lparr>ready := (ready pool)(i := None)\<rparr>)\<rparr>"
    | (dirty) i where "p' = p\<lparr>pools := (pools p)(hash \<mapsto> pool\<lparr>dirty := (dirty pool)(i := None)\<rparr>)\<rparr>"
    by (auto simp: GetDB_def popFirstKey_def split: if_splits dest!: GetDB_pick_pools [OF sym])
  then show ?thesis
  proof cases
    case unchanged
    with assms(1) show ?thesis by simp
  next
    case (ready i)
    with assms(1) pool_ok_pop_ready [OF ok] show ?thesis by (simp add: DBPool_ok_update)
  next
    case (dirty i)
    with assms(1) pool_ok_pop_dirty [OF ok] show ?thesis by (simp add: DBPool_ok_update)
  qed
qed

lemma AddTestDatabase_eq:
  "AddTestDatabase p template prefix initFunc w =
     (let hash = TemplateHash template; pool = pool_for p hash;
          index = int (length (dbs pool)); db = new_slot template prefix index in
      if maxPoolSize p \<le> index then (Inl ErrPoolFull, p\<lparr>pools := (pools p)(hash \<mapsto> pool)\<rparr>, w)
      else case initFunc db w of
             (Some err, w') \<Rightarrow> (Inl err, p\<lparr>pools := (pools p)(hash \<mapsto> pool)\<rparr>, w')
           | (None, w') \<Rightarrow>
               (Inr db,
                p\<lparr>pools := (pools p)(hash \<mapsto>
                  pool\<lparr>dbs := dbs pool @ [db], ready := (ready pool)(index \<mapsto> True)\<rparr>)\<rparr>,
                w'))"
  by (simp add: AddTestDatabase_def pool_for_def new_slot_def Let_def)

lemma pool_for_ok: "DBPool_ok b n p \<Longrightarrow> pool_ok b n (pool_for p hash)"
  by (auto simp: pool_for_def DBPool_ok_def newDBHashPool_ok split: option.splits)

lemma AddTestDatabase_ok:
  assumes "DBPool_ok b n p" "AddTestDatabase p template prefix initFunc w = (r, p', w')"
  shows "DBPool_ok b n p'"
proof -
  let ?hash = "TemplateHash template"
  let ?pool = "pool_for p ?hash"
  have ok: "pool_ok b n ?pool" using assms(1) by (rule pool_for_ok)
  have n: "maxPoolSize p = n" using assms(1) by (simp add: DBPool_ok_def)
  from assms(2) consider
      (same) "p' = p\<lparr>pools := (pools p)(?hash \<mapsto> ?pool)\<rparr>"
    | (added) db where "int (length (dbs ?pool)) < n"
        "p' = p\<lparr>pools := (pools p)(?hash \<mapsto>
           ?pool\<lparr>dbs := dbs ?pool @ [db], ready := (ready ?pool)(int (length (dbs ?pool)) \<mapsto> True)\<rparr>)\<rparr>"
    unfolding AddTestDatabase_eq Let_def n
    by (auto split: if_splits prod.splits option.splits)
  then show ?thesis
  proof cases
    case same
    with assms(1) ok show ?thesis by (simp add: DBPool_ok_update)
  next
    case (added db)
    have "pool_ok b n (?pool\<lparr>dbs := dbs ?pool @ [db],
            ready := (ready ?pool)(int (length (dbs ?pool)) \<mapsto> True)\<rparr>)"
      using ok added(1) by (auto simp: pool_ok_def)
    with assms(1) added(2) show ?thesis by (simp add: DBPool_ok_update)
  qed
qed

lemma ReturnTestDatabase_ok:
  assumes "DBPool_ok b n p" "ReturnTestDatabase p hash dbid = (e, p')"
    "b \<longrightarrow> handed_out p hash dbid"
  shows "DBPool_ok b n p'"
proof (cases "e = None")
  case False
  with assms(2) have "p' = p"
    by (auto simp: ReturnTestDatabase_def split: if_splits option.splits)
  with assms(1) show ?thesis by simp
next
  case True
  with assms(2) obtain pool where pool: "pools p hash = Some pool" "0 \<le> dbid" "dbid < maxPoolSize p"
      "p' = p\<lparr>pools := (pools p)(hash \<mapsto> pool\<lparr>dirty := (dirty pool)(dbid \<mapsto> True)\<rparr>)\<rparr>"
    by (auto simp: ReturnTestDatabase_def split: if_splits option.splits)
  from assms(1) pool(1) have ok: "pool_ok b n pool" and n: "maxPoolSize p = n"
    by (simp_all add: DBPool_ok_def)
  have "pool_ok b n (pool\<lparr>dirty := (dirty pool)(dbid \<mapsto> True)\<rparr>)"
    using ok pool(1-3) n assms(3) by (auto simp: pool_ok_def handed_out_def inUse_def)
  with assms(1) pool(4) show ?thesis by (simp add: DBPool_ok_update)
qed

lemma removeAllFromPool_result:
  assumes "removeAllFromPool pool f w = (e, pool', w')"
  shows "\<exists>k \<le> length (dbs pool).
     dbs pool' = take k (dbs pool) \<and>
     ready pool' = masked k (length (dbs pool)) (ready pool) \<and>
     dirty pool' = masked k (length (dbs pool)) (dirty pool) \<and>
     (e = None \<longrightarrow> k = 0) \<and>
     (e \<noteq> None \<longrightarrow> 0 < k \<and> (\<exists>v. fst (f (dbs pool ! (k - 1)) v) = e))"
  using assms removeAll_loop_result [of pool "int (length (dbs pool)) - 1" f w e pool' w']
  by (simp add: removeAllFromPool_def)

lemma removeAllFromPool_ok:
  assumes "pool_ok b n pool" "removeAllFromPool pool f w = (e, pool', w')"
  shows "pool_ok b n pool'"
proof -
  from removeAllFromPool_result [OF assms(2)] obtain k where k: "k \<le> length (dbs pool)"
    "dbs pool' = take k (dbs pool)" "ready pool' = masked k (length (dbs pool)) (ready pool)"
    "dirty pool' = masked k (length (dbs pool)) (dirty pool)" by blast
  show ?thesis
    unfolding pool_ok_def k(2-4) using assms(1) k(1)
    by (auto simp: pool_ok_def min_def masked_def split: if_splits)
qed

lemma RemoveAllWithHash_ok:
  assumes "DBPool_ok b n p" "RemoveAllWithHash p hash f w = (e, p', w')"
  shows "DBPool_ok b n p'"
proof (cases "pools p hash")
  case None
  with assms show ?thesis by (simp add: RemoveAllWithHash_def)
next
  case (Some pool)
  obtain e2 pool' v where run: "removeAllFromPool pool f w = (e2, pool', v)"
    by (cases "removeAllFromPool pool f w")
  with assms(2) Some have p': "p' = p\<lparr>pools := (pools p)(hash \<mapsto> pool')\<rparr>"
    by (simp add: RemoveAllWithHash_def)
  from assms(1) Some have "pool_ok b n pool" by (simp add: DBPool_ok_def)
  from removeAllFromPool_ok [OF this run] assms(1) p' show ?thesis
    by (simp add: DBPool_ok_update)
qed

lemma RemoveAll_range_ok:
  "DBPool_ok b n p \<Longrightarrow> RemoveAll_range order p f w = (e, p', w') \<Longrightarrow> DBPool_ok b n p'"
proof (induction order arbitrary: p w)
  case Nil
  then show ?case by simp
next
  case (Cons hash rest)
  show ?case
  proof (cases "pools p hash")
    case None
    with Cons.prems(2) have "RemoveAll_range rest p f w = (e, p', w')" by simp
    from Cons.IH [OF Cons.prems(1) this] show ?thesis .
  next
    case (Some pool)
    obtain e2 pool' v where run: "removeAllFromPool pool f w = (e2, pool', v)"
      by (cases "removeAllFromPool pool f w")
    from Cons.prems(1) Some have "pool_ok b n pool" by (simp add: DBPool_ok_def)
    from removeAllFromPool_ok [OF this run] have ok': "pool_ok b n pool'" .
    show ?thesis
    proof (cases e2)
      case None
      with Cons.prems(2) Some run
      have "RemoveAll_range rest (p\<lparr>pools := (pools p)(hash := None)\<rparr>) f v = (e, p', w')"
        by simp
      from Cons.IH [OF DBPool_ok_delete [OF Cons.prems(1)] this] show ?thesis .
    next
      case (Some err)
      with Cons.prems(2) \<open>pools p hash = Some pool\<close> run
      have "p' = p\<lparr>pools := (pools p)(hash \<mapsto> pool')\<rparr>" by simp
      with Cons.prems(1) ok' show ?thesis by (simp add: DBPool_ok_update)
    qed
  qed
qed

lemma step_ok: "step b s s' \<Longrightarrow> DBPool_ok b n (fst s) \<Longrightarrow> DBPool_ok b n (fst s')"
proof (induction rule: step.induct)
  case (step_GetDB r p' p hash w)
  then show ?case by (auto intro: GetDB_ok)
next
  case (step_AddTestDatabase p template dbNamePrefix initFunc w r p' w')
  then show ?case by (auto intro: AddTestDatabase_ok)
next
  case (step_ReturnTestDatabase p hash dbid e p' w)
  then show ?case by (auto intro: ReturnTestDatabase_ok)
next
  case (step_RemoveAllWithHash p hash removeFunc w e p' w')
  then show ?case by (auto intro: RemoveAllWithHash_ok)
next
  case (step_RemoveAll p order removeFunc w e p' w')
  then show ?case by (auto simp: RemoveAll_def intro: RemoveAll_range_ok)
qed

lemma reachable_ok: "reachable b n s \<Longrightarrow> DBPool_ok b n (fst s)"
  by (induction rule: reachable.induct) (auto intro: NewDBPool_ok step_ok)

lemma TemplateHash_abc: "TemplateHash template_abc = ''abc''"
  by (simp add: template_abc_def)

lemma Add_first:
  "AddTestDatabase (NewDBPool 2) template_abc ''test_abc_'' always_ok w =
     (Inr slot_abc_000, one_ready_abc, w)"
  by (simp add: AddTestDatabase_eq pool_for_def NewDBPool_def newDBHashPool_def TemplateHash_abc
      always_ok_def one_ready_abc_def slot_abc_000_def Let_def)

lemma GetDB_one_ready:
  "GetDB one_ready_abc ''abc'' = {(Inr (slot_abc_000, False), one_in_use_abc)}"
  by (simp add: GetDB_def one_ready_abc_def one_in_use_abc_def popFirstKey_def GetDB_pick_def)

lemma Return_one_in_use:
  "ReturnTestDatabase one_in_use_abc ''abc'' 0 = (None, one_dirty_abc)"
  by (simp add: ReturnTestDatabase_def one_in_use_abc_def one_dirty_abc_def)

lemma handed_out_one_in_use: "handed_out one_in_use_abc ''abc'' 0"
  by (simp add: handed_out_def inUse_def one_in_use_abc_def)

lemma one_ready_abc_reachable: "reachable b 2 (one_ready_abc, w)"
  by (rule reachable_step [OF reachable_init step_AddTestDatabase [OF Add_first]])

lemma one_in_use_abc_reachable: "reachable b 2 (one_in_use_abc, w)"
  by (rule reachable_step [OF one_ready_abc_reachable step_GetDB [of _ _ one_ready_abc "''abc''"]])
    (simp add: GetDB_one_ready)

lemma one_dirty_abc_reachable: "reachable b 2 (one_dirty_abc, w)"
  by (rule reachable_step [OF one_in_use_abc_reachable
        step_ReturnTestDatabase [OF Return_one_in_use]])
    (simp add: handed_out_one_in_use)

lemma ready_and_dirty_abc_reachable: "reachable False 2 (ready_and_dirty_abc, w)"
proof -
  let ?mid = "\<lparr>pools = [''abc'' \<mapsto> \<lparr>dbs = [slot_abc_000], ready = [0 \<mapsto> True],
                            dirty = [0 \<mapsto> True]\<rparr>], maxPoolSize = 2\<rparr>"
  have 1: "ReturnTestDatabase one_ready_abc ''abc'' 0 = (None, ?mid)"
    by (simp add: ReturnTestDatabase_def one_ready_abc_def)
  have 2: "ReturnTestDatabase ?mid ''abc'' 1 = (None, ready_and_dirty_abc)"
    by (simp add: ReturnTestDatabase_def ready_and_dirty_abc_def index_flag_def)
  have "reachable False 2 (?mid, w)"
    by (rule reachable_step [OF one_ready_abc_reachable step_ReturnTestDatabase [OF 1]]) simp
  then show ?thesis
    by (rule reachable_step [OF _ step_ReturnTestDatabase [OF 2]]) simp
qed

lemma pool_okD:
  assumes "reachable b n (p, w)" "pools p hash = Some pool"
  shows "pool_ok b n pool" "maxPoolSize p = n"
  using reachable_ok [OF assms(1)] assms(2) by (simp_all add: DBPool_ok_def)

lemma GetDB_one_in_use: "GetDB one_in_use_abc ''abc'' = {(Inl ErrNoDBReady, one_in_use_abc)}"
  by (simp add: GetDB_def one_in_use_abc_def)

lemma GetDB_one_dirty:
  "GetDB one_dirty_abc ''abc'' = {(Inr (slot_abc_000, True), one_in_use_abc)}"
  by (simp add: GetDB_def one_dirty_abc_def one_in_use_abc_def popFirstKey_def GetDB_pick_def)



subsection \<open>The partition of the slots\<close>

text \<open>
  C1, as the specification states it, fails: \<^verbatim>\<open>ReturnTestDatabase\<close> accepts an id that is still in
  \<open>ready\<close>, and an id that was never allocated. After \<^verbatim>\<open>AddTestDatabase\<close>, a return of id 0
  and a return of id 1, the id 0 is in \<open>ready\<close> and in \<open>dirty\<close>, and \<open>dirty\<close> holds the id 1
  while the pool has one slot.
\<close>

theorem partition_counterexample:
  "reachable False 2 (ready_and_dirty_abc, ()) \<and>
   dom (ready (the (pools ready_and_dirty_abc ''abc''))) \<inter>
     dom (dirty (the (pools ready_and_dirty_abc ''abc''))) = {0} \<and>
   1 \<in> dom (dirty (the (pools ready_and_dirty_abc ''abc''))) \<and>
   length (dbs (the (pools ready_and_dirty_abc ''abc''))) = 1"
  using ready_and_dirty_abc_reachable [of "()"]
  by (simp add: ready_and_dirty_abc_def)

text \<open>
  C1, amended. The pool keeps no set of the slots in use and none of the slots being
  recycled: the slots in use are those in neither \<open>ready\<close> nor \<open>dirty\<close>. In every state
  reached by calls in which \<^verbatim>\<open>ReturnTestDatabase\<close> is given only ids that are handed out,
  \<open>ready\<close>, \<open>dirty\<close> and the slots in use are pairwise disjoint and cover exactly the indices
  of \<open>dbs\<close>. In every state reached by any calls, \<open>ready\<close> holds indices of \<open>dbs\<close> only and
  \<open>dirty\<close> ids of \<open>[0, maxPoolSize)\<close> only.
\<close>

theorem partition_of_slots:
  assumes "pools p hash = Some pool"
  shows "(reachable True n (p, w) \<longrightarrow>
            dom (ready pool) \<inter> dom (dirty pool) = {} \<and>
            dom (ready pool) \<inter> inUse pool = {} \<and>
            dom (dirty pool) \<inter> inUse pool = {} \<and>
            dom (ready pool) \<union> dom (dirty pool) \<union> inUse pool =
              {i. 0 \<le> i \<and> i < int (length (dbs pool))}) \<and>
         (reachable False n (p, w) \<longrightarrow>
            dom (ready pool) \<subseteq> {i. 0 \<le> i \<and> i < int (length (dbs pool))} \<and>
            dom (dirty pool) \<subseteq> {i. 0 \<le> i \<and> i < maxPoolSize p})"
proof (intro conjI impI)
  assume r: "reachable True n (p, w)"
  from pool_okD [OF r assms] have ok: "pool_ok True n pool" by simp
  show "dom (ready pool) \<inter> dom (dirty pool) = {}"
    using ok by (auto simp: pool_ok_def)
  show "dom (ready pool) \<inter> inUse pool = {}" by (auto simp: inUse_def)
  show "dom (dirty pool) \<inter> inUse pool = {}" by (auto simp: inUse_def)
  show "dom (ready pool) \<union> dom (dirty pool) \<union> inUse pool =
          {i. 0 \<le> i \<and> i < int (length (dbs pool))}"
    using ok by (auto simp: pool_ok_def inUse_def)
next
  assume r: "reachable False n (p, w)"
  from pool_okD [OF r assms] have ok: "pool_ok False n pool" "maxPoolSize p = n" by simp_all
  show "dom (ready pool) \<subseteq> {i. 0 \<le> i \<and> i < int (length (dbs pool))}"
    using ok by (auto simp: pool_ok_def)
  show "dom (dirty pool) \<subseteq> {i. 0 \<le> i \<and> i < maxPoolSize p}"
    using ok by (auto simp: pool_ok_def)
qed

theorem partition_of_slots_witness:
  "dom (ready (the (pools one_dirty_abc ''abc''))) \<inter>
     dom (dirty (the (pools one_dirty_abc ''abc''))) = {} \<and>
   dom (ready (the (pools one_dirty_abc ''abc''))) \<union>
     dom (dirty (the (pools one_dirty_abc ''abc''))) \<union> inUse (the (pools one_dirty_abc ''abc'')) = {0} \<and>
   dom (dirty (the (pools ready_and_dirty_abc ''abc''))) \<subseteq> {0, 1}"
proof -
  have 1: "pools one_dirty_abc ''abc'' = Some (the (pools one_dirty_abc ''abc''))"
    by (simp add: one_dirty_abc_def)
  have 2: "pools ready_and_dirty_abc ''abc'' = Some (the (pools ready_and_dirty_abc ''abc''))"
    by (simp add: ready_and_dirty_abc_def)
  have 3: "{i::int. 0 \<le> i \<and> i < 1} = {0}" "{i::int. 0 \<le> i \<and> i < 2} = {0, 1}" by auto
  from partition_of_slots [OF 1, of 2 "()"] partition_of_slots [OF 2, of 2 "()"]
    one_dirty_abc_reachable [of True "()"] ready_and_dirty_abc_reachable [of "()"]
  show ?thesis
    by (simp add: one_dirty_abc_def ready_and_dirty_abc_def 3)
qed

subsection \<open>The errors of ReturnTestDatabase\<close>

text \<open>
  C5. \<^verbatim>\<open>ReturnTestDatabase\<close> returns \<open>ErrInvalidIndex\<close> for every id outside
  \<open>[0, maxPoolSize)\<close>, whatever the hash, since the check comes before the lookup of the
  hash pool; for an id inside the range it returns \<open>ErrUnknownHash\<close> when the hash has no
  pool; and a call that follows a successful call with the same hash and id returns
  \<open>ErrUnknownID\<close> and changes nothing.
\<close>

theorem ReturnTestDatabase_errors:
  "(dbid < 0 \<or> maxPoolSize p \<le> dbid \<longrightarrow>
      ReturnTestDatabase p hash dbid = (Some ErrInvalidIndex, p)) \<and>
   (0 \<le> dbid \<and> dbid < maxPoolSize p \<and> pools p hash = None \<longrightarrow>
      ReturnTestDatabase p hash dbid = (Some ErrUnknownHash, p)) \<and>
   (ReturnTestDatabase p hash dbid = (None, p') \<longrightarrow>
      ReturnTestDatabase p' hash dbid = (Some ErrUnknownID, p'))"
  by (auto simp: ReturnTestDatabase_def index_flag_def split: option.splits if_splits)

theorem ReturnTestDatabase_errors_witness:
  "ReturnTestDatabase (NewDBPool 2) ''abc'' 5 = (Some ErrInvalidIndex, NewDBPool 2) \<and>
   ReturnTestDatabase (NewDBPool 2) ''abc'' 1 = (Some ErrUnknownHash, NewDBPool 2) \<and>
   fst (ReturnTestDatabase empty_pool_abc ''abc'' 1) = None \<and>
   fst (ReturnTestDatabase (snd (ReturnTestDatabase empty_pool_abc ''abc'' 1)) ''abc'' 1)
     = Some ErrUnknownID"
  using ReturnTestDatabase_errors [of 5 "NewDBPool 2" "''abc''"]
    ReturnTestDatabase_errors [of 1 "NewDBPool 2" "''abc''"]
    ReturnTestDatabase_errors [of 1 empty_pool_abc "''abc''"
      "snd (ReturnTestDatabase empty_pool_abc ''abc'' 1)"]
  by (simp add: NewDBPool_def empty_pool_abc_def newDBHashPool_def ReturnTestDatabase_def)

subsection \<open>What ReturnTestDatabase accepts\<close>

text \<open>
  C3, as the specification states it, fails. In the state after the first \<^verbatim>\<open>AddTestDatabase\<close> the
  id 0 is in \<open>ready\<close> and the id 1 was never allocated; neither is handed out, and
  \<^verbatim>\<open>ReturnTestDatabase\<close> succeeds for both.
\<close>

theorem ReturnTestDatabase_ready_counterexample:
  "reachable False 2 (one_ready_abc, ()) \<and>
   0 \<in> dom (ready (the (pools one_ready_abc ''abc''))) \<and>
   \<not> handed_out one_ready_abc ''abc'' 0 \<and>
   \<not> handed_out one_ready_abc ''abc'' 1 \<and>
   fst (ReturnTestDatabase one_ready_abc ''abc'' 0) = None \<and>
   fst (ReturnTestDatabase one_ready_abc ''abc'' 1) = None"
  using one_ready_abc_reachable [of False "()"]
  by (simp add: one_ready_abc_def handed_out_def inUse_def ReturnTestDatabase_def)

text \<open>
  C3, amended. For an id inside \<open>[0, maxPoolSize)\<close> and a hash that has a pool,
  \<^verbatim>\<open>ReturnTestDatabase\<close> returns \<open>ErrUnknownID\<close> exactly when the id is already in \<open>dirty\<close>;
  for every other id, also one that is in \<open>ready\<close> or was never allocated, it succeeds and
  puts the id into \<open>dirty\<close>.
\<close>

theorem ReturnTestDatabase_UnknownID_iff:
  assumes "0 \<le> dbid" "dbid < maxPoolSize p" "pools p hash = Some pool"
  shows "(fst (ReturnTestDatabase p hash dbid) = Some ErrUnknownID \<longleftrightarrow> dirty pool dbid = Some True) \<and>
         (dirty pool dbid \<noteq> Some True \<longrightarrow>
            ReturnTestDatabase p hash dbid =
              (None, p\<lparr>pools := (pools p)(hash \<mapsto> pool\<lparr>dirty := (dirty pool)(dbid \<mapsto> True)\<rparr>)\<rparr>))"
  using assms by (auto simp: ReturnTestDatabase_def index_flag_def split: option.splits)

theorem ReturnTestDatabase_UnknownID_iff_witness:
  "fst (ReturnTestDatabase one_dirty_abc ''abc'' 0) = Some ErrUnknownID \<and>
   ReturnTestDatabase one_ready_abc ''abc'' 0 =
     (None, one_ready_abc\<lparr>pools := (pools one_ready_abc)(''abc'' \<mapsto>
        (the (pools one_ready_abc ''abc''))\<lparr>dirty := [0 \<mapsto> True]\<rparr>)\<rparr>)"
  using ReturnTestDatabase_UnknownID_iff [of 0 one_dirty_abc "''abc''" "the (pools one_dirty_abc ''abc'')"]
    ReturnTestDatabase_UnknownID_iff [of 0 one_ready_abc "''abc''" "the (pools one_ready_abc ''abc'')"]
  by (simp add: one_dirty_abc_def one_ready_abc_def)

subsection \<open>The ids in ready\<close>

text \<open>
  C10. In every state reached by calls of the exported operations, with any arguments, every
  id in \<open>ready\<close> is an index of \<open>dbs\<close> and is below the maximal pool size. So when \<open>ready\<close>
  is not empty \<^verbatim>\<open>GetDB\<close> returns, never with \<open>ErrInvalidIndex\<close>: each outcome is the slot of an
  id of \<open>ready\<close>, not dirty, with that id removed from \<open>ready\<close>.
\<close>

theorem ready_ids_index_slots:
  assumes "reachable b n (p, w)" "pools p hash = Some pool"
  shows "(\<forall>i\<in>dom (ready pool). 0 \<le> i \<and> i < int (length (dbs pool)) \<and> i < maxPoolSize p) \<and>
         (dom (ready pool) \<noteq> {} \<longrightarrow>
            GetDB p hash \<noteq> {} \<and>
            (\<forall>(r, p')\<in>GetDB p hash. r \<noteq> Inl ErrInvalidIndex \<and>
               (\<exists>i\<in>dom (ready pool). r = Inr (dbs pool ! nat i, False) \<and>
                  p' = p\<lparr>pools := (pools p)(hash \<mapsto> pool\<lparr>ready := (ready pool)(i := None)\<rparr>)\<rparr>)))"
proof -
  from reachable_ok [OF assms(1)] assms(2)
  have ok: "pool_ok b n pool" and n: "maxPoolSize p = n" by (simp_all add: DBPool_ok_def)
  have valid: "\<forall>i\<in>dom (ready pool). 0 \<le> i \<and> i < int (length (dbs pool)) \<and> i < maxPoolSize p"
    using ok n by (auto simp: pool_ok_def)
  have valid': "\<And>i y. ready pool i = Some y \<Longrightarrow> 0 \<le> i \<and> i < int (length (dbs pool)) \<and> i < maxPoolSize p"
    using ok n by (auto simp: pool_ok_def)
  show ?thesis
  proof (intro conjI impI)
    show "\<forall>i\<in>dom (ready pool). 0 \<le> i \<and> i < int (length (dbs pool)) \<and> i < maxPoolSize p"
      by (rule valid)
  next
    assume ne: "dom (ready pool) \<noteq> {}"
    then have eq: "GetDB p hash =
        (\<lambda>i. GetDB_pick p hash (pool\<lparr>ready := (ready pool)(i := None)\<rparr>) i False) ` dom (ready pool)"
      using assms(2) by (simp add: GetDB_def popFirstKey_def image_image)
    show "GetDB p hash \<noteq> {}" using ne by (simp add: eq)
    show "\<forall>(r, p')\<in>GetDB p hash. r \<noteq> Inl ErrInvalidIndex \<and>
               (\<exists>i\<in>dom (ready pool). r = Inr (dbs pool ! nat i, False) \<and>
                  p' = p\<lparr>pools := (pools p)(hash \<mapsto> pool\<lparr>ready := (ready pool)(i := None)\<rparr>)\<rparr>)"
      unfolding eq by (auto simp: GetDB_pick_def Let_def dest: valid')
  qed
qed

theorem ready_ids_index_slots_witness:
  "0 \<in> dom (ready (the (pools one_ready_abc ''abc''))) \<and>
   (0::int) < int (length (dbs (the (pools one_ready_abc ''abc'')))) \<and>
   GetDB one_ready_abc ''abc'' = {(Inr (slot_abc_000, False), one_in_use_abc)}"
proof -
  have 1: "pools one_ready_abc ''abc'' = Some (the (pools one_ready_abc ''abc''))"
    by (simp add: one_ready_abc_def)
  from ready_ids_index_slots [OF one_ready_abc_reachable [of False "()"] 1] GetDB_one_ready
  show ?thesis by (simp add: one_ready_abc_def)
qed

subsection \<open>The order of preference of GetDB\<close>

text \<open>
  C2, as the specification states it, fails: \<^verbatim>\<open>GetDB\<close> never extends the pool. With one slot, handed
  out, in a pool of maximal size 2, \<^verbatim>\<open>GetDB\<close> returns \<open>ErrNoDBReady\<close> and changes nothing; with
  that slot returned and dirty, \<^verbatim>\<open>GetDB\<close> hands the dirty slot out, although the pool is not
  full.
\<close>

theorem GetDB_extend_counterexample:
  "reachable True 2 (one_in_use_abc, ()) \<and>
   dom (ready (the (pools one_in_use_abc ''abc''))) = {} \<and>
   int (length (dbs (the (pools one_in_use_abc ''abc'')))) < maxPoolSize one_in_use_abc \<and>
   GetDB one_in_use_abc ''abc'' = {(Inl ErrNoDBReady, one_in_use_abc)} \<and>
   reachable True 2 (one_dirty_abc, ()) \<and>
   dom (ready (the (pools one_dirty_abc ''abc''))) = {} \<and>
   int (length (dbs (the (pools one_dirty_abc ''abc'')))) < maxPoolSize one_dirty_abc \<and>
   GetDB one_dirty_abc ''abc'' = {(Inr (slot_abc_000, True), one_in_use_abc)}"
  using one_in_use_abc_reachable [of True "()"] one_dirty_abc_reachable [of True "()"]
    GetDB_one_in_use GetDB_one_dirty
  by (simp add: one_in_use_abc_def one_dirty_abc_def)

text \<open>
  C2, amended. In every reachable state, for a hash that has a pool: when \<open>ready\<close> is not
  empty, \<^verbatim>\<open>GetDB\<close> removes an id from \<open>ready\<close> and returns its slot, not dirty; otherwise, when
  \<open>dirty\<close> is not empty, it removes an id from \<open>dirty\<close> and returns its slot as dirty, whatever
  the number of slots (there is no force-return setting in the pool), or \<open>ErrInvalidIndex\<close>
  when that id indexes no slot, which cannot happen when only handed-out ids were returned;
  otherwise it returns \<open>ErrNoDBReady\<close> and changes nothing. No outcome changes \<open>dbs\<close>.
\<close>

theorem GetDB_preference:
  assumes "reachable b n (p, w)" "pools p hash = Some pool"
  shows "(dom (ready pool) \<noteq> {} \<longrightarrow>
            GetDB p hash =
              (\<lambda>i. (Inr (dbs pool ! nat i, False),
                     p\<lparr>pools := (pools p)(hash \<mapsto> pool\<lparr>ready := (ready pool)(i := None)\<rparr>)\<rparr>))
                ` dom (ready pool)) \<and>
         (dom (ready pool) = {} \<and> dom (dirty pool) \<noteq> {} \<longrightarrow>
            GetDB p hash =
              (\<lambda>i. (if i < int (length (dbs pool)) then Inr (dbs pool ! nat i, True)
                      else Inl ErrInvalidIndex,
                     p\<lparr>pools := (pools p)(hash \<mapsto> pool\<lparr>dirty := (dirty pool)(i := None)\<rparr>)\<rparr>))
                ` dom (dirty pool)) \<and>
         (dom (ready pool) = {} \<and> dom (dirty pool) = {} \<longrightarrow>
            GetDB p hash = {(Inl ErrNoDBReady, p)}) \<and>
         (b \<longrightarrow> (\<forall>i\<in>dom (dirty pool). i < int (length (dbs pool)))) \<and>
         (\<forall>(r, p')\<in>GetDB p hash. \<exists>pool'. pools p' hash = Some pool' \<and> dbs pool' = dbs pool)"
proof -
  from reachable_ok [OF assms(1)] assms(2)
  have ok: "pool_ok b n pool" and n: "maxPoolSize p = n" by (simp_all add: DBPool_ok_def)
  have ready: "\<And>i. i \<in> dom (ready pool) \<Longrightarrow> 0 \<le> i \<and> i < int (length (dbs pool)) \<and> i < maxPoolSize p"
    using ok n by (auto simp: pool_ok_def)
  have dirty: "\<And>i. i \<in> dom (dirty pool) \<Longrightarrow> 0 \<le> i \<and> i < maxPoolSize p"
    using ok n by (auto simp: pool_ok_def)
  have 1: "dom (ready pool) \<noteq> {} \<longrightarrow>
            GetDB p hash =
              (\<lambda>i. (Inr (dbs pool ! nat i, False),
                     p\<lparr>pools := (pools p)(hash \<mapsto> pool\<lparr>ready := (ready pool)(i := None)\<rparr>)\<rparr>))
                ` dom (ready pool)"
  proof
    assume ne: "dom (ready pool) \<noteq> {}"
    have "GetDB p hash =
        (\<lambda>i. GetDB_pick p hash (pool\<lparr>ready := (ready pool)(i := None)\<rparr>) i False) ` dom (ready pool)"
      using ne assms(2) by (simp add: GetDB_def popFirstKey_def image_image)
    also have "\<dots> = (\<lambda>i. (Inr (dbs pool ! nat i, False),
                     p\<lparr>pools := (pools p)(hash \<mapsto> pool\<lparr>ready := (ready pool)(i := None)\<rparr>)\<rparr>))
                ` dom (ready pool)"
    proof (rule image_cong [OF refl])
      fix i assume "i \<in> dom (ready pool)"
      from ready [OF this]
      show "GetDB_pick p hash (pool\<lparr>ready := (ready pool)(i := None)\<rparr>) i False =
          (Inr (dbs pool ! nat i, False),
           p\<lparr>pools := (pools p)(hash \<mapsto> pool\<lparr>ready := (ready pool)(i := None)\<rparr>)\<rparr>)"
        by (simp add: GetDB_pick_def Let_def)
    qed
    finally show "GetDB p hash = (\<lambda>i. (Inr (dbs pool ! nat i, False),
                     p\<lparr>pools := (pools p)(hash \<mapsto> pool\<lparr>ready := (ready pool)(i := None)\<rparr>)\<rparr>))
                ` dom (ready pool)" .
  qed
  have 2: "dom (ready pool) = {} \<and> dom (dirty pool) \<noteq> {} \<longrightarrow>
            GetDB p hash =
              (\<lambda>i. (if i < int (length (dbs pool)) then Inr (dbs pool ! nat i, True)
                      else Inl ErrInvalidIndex,
                     p\<lparr>pools := (pools p)(hash \<mapsto> pool\<lparr>dirty := (dirty pool)(i := None)\<rparr>)\<rparr>))
                ` dom (dirty pool)"
  proof
    assume ne: "dom (ready pool) = {} \<and> dom (dirty pool) \<noteq> {}"
    have "GetDB p hash =
        (\<lambda>i. GetDB_pick p hash (pool\<lparr>dirty := (dirty pool)(i := None)\<rparr>) i True) ` dom (dirty pool)"
      using ne assms(2) by (simp add: GetDB_def popFirstKey_def image_image)
    also have "\<dots> = (\<lambda>i. (if i < int (length (dbs pool)) then Inr (dbs pool ! nat i, True)
                      else Inl ErrInvalidIndex,
                     p\<lparr>pools := (pools p)(hash \<mapsto> pool\<lparr>dirty := (dirty pool)(i := None)\<rparr>)\<rparr>))
                ` dom (dirty pool)"
    proof (rule image_cong [OF refl])
      fix i assume "i \<in> dom (dirty pool)"
      from dirty [OF this]
      show "GetDB_pick p hash (pool\<lparr>dirty := (dirty pool)(i := None)\<rparr>) i True =
          (if i < int (length (dbs pool)) then Inr (dbs pool ! nat i, True)
           else Inl ErrInvalidIndex,
           p\<lparr>pools := (pools p)(hash \<mapsto> pool\<lparr>dirty := (dirty pool)(i := None)\<rparr>)\<rparr>)"
        by (simp add: GetDB_pick_def Let_def)
    qed
    finally show "GetDB p hash = (\<lambda>i. (if i < int (length (dbs pool)) then Inr (dbs pool ! nat i, True)
                      else Inl ErrInvalidIndex,
                     p\<lparr>pools := (pools p)(hash \<mapsto> pool\<lparr>dirty := (dirty pool)(i := None)\<rparr>)\<rparr>))
                ` dom (dirty pool)" .
  qed
  have 3: "dom (ready pool) = {} \<and> dom (dirty pool) = {} \<longrightarrow>
            GetDB p hash = {(Inl ErrNoDBReady, p)}"
    using assms(2) by (simp add: GetDB_def)
  have 4: "b \<longrightarrow> (\<forall>i\<in>dom (dirty pool). i < int (length (dbs pool)))"
    using ok by (auto simp: pool_ok_def)
  have 5: "\<forall>(r, p')\<in>GetDB p hash. \<exists>pool'. pools p' hash = Some pool' \<and> dbs pool' = dbs pool"
  proof (cases "dom (ready pool) = {}")
    case False
    with 1 show ?thesis by auto
  next
    case True
    show ?thesis
    proof (cases "dom (dirty pool) = {}")
      case True
      with \<open>dom (ready pool) = {}\<close> 3 assms(2) show ?thesis by auto
    next
      case False
      with \<open>dom (ready pool) = {}\<close> 2 show ?thesis by auto
    qed
  qed
  from 1 2 3 4 5 show ?thesis by blast
qed

theorem GetDB_preference_witness:
  "GetDB one_ready_abc ''abc'' = {(Inr (slot_abc_000, False), one_in_use_abc)} \<and>
   GetDB one_dirty_abc ''abc'' = {(Inr (slot_abc_000, True), one_in_use_abc)} \<and>
   GetDB one_in_use_abc ''abc'' = {(Inl ErrNoDBReady, one_in_use_abc)}"
proof -
  have 1: "pools one_ready_abc ''abc'' = Some (the (pools one_ready_abc ''abc''))"
    by (simp add: one_ready_abc_def)
  have 2: "pools one_dirty_abc ''abc'' = Some (the (pools one_dirty_abc ''abc''))"
    by (simp add: one_dirty_abc_def)
  have 3: "pools one_in_use_abc ''abc'' = Some (the (pools one_in_use_abc ''abc''))"
    by (simp add: one_in_use_abc_def)
  from GetDB_preference [OF one_ready_abc_reachable [of True "()"] 1]
    GetDB_preference [OF one_dirty_abc_reachable [of True "()"] 2]
    GetDB_preference [OF one_in_use_abc_reachable [of True "()"] 3]
  show ?thesis
    by (simp add: one_ready_abc_def one_dirty_abc_def one_in_use_abc_def)
qed

subsection \<open>The pool entry after RemoveAllWithHash\<close>

text \<open>
  C4. \<^verbatim>\<open>RemoveAllWithHash\<close> does not delete the entry of the hash, unlike \<^verbatim>\<open>RemoveAll\<close>: after
  a successful \<^verbatim>\<open>RemoveAllWithHash\<close> on the pool with one ready slot, the hash still has an
  (empty) pool, and \<^verbatim>\<open>GetDB\<close> returns \<open>ErrNoDBReady\<close>, not \<open>ErrUnknownHash\<close>.
\<close>

theorem RemoveAllWithHash_keeps_entry:
  "RemoveAllWithHash one_ready_abc ''abc'' always_ok () = (None, empty_pool_abc, ()) \<and>
   pools empty_pool_abc ''abc'' = Some (newDBHashPool 2) \<and>
   GetDB empty_pool_abc ''abc'' = {(Inl ErrNoDBReady, empty_pool_abc)}"
  by (simp add: RemoveAllWithHash_def removeAllFromPool_def removeAll_loop.simps
      one_ready_abc_def empty_pool_abc_def NewDBPool_def newDBHashPool_def always_ok_def GetDB_def)

subsection \<open>A hash without a pool\<close>



subsection \<open>Allocation by AddTestDatabase\<close>



subsection \<open>The database name of a slot\<close>




lemma slots_kept_same: "dbs pool' = dbs pool \<Longrightarrow> slots_kept pool pool'"
  by (simp add: slots_kept_def)

lemma slots_kept_append: "dbs pool' = dbs pool @ xs \<Longrightarrow> slots_kept pool pool'"
  by (simp add: slots_kept_def nth_append)













subsection \<open>The calls of removeFunc\<close>

lemma removeAllFromPool_logged:
  assumes "removeAllFromPool pool (logged f) (w, calls) = (e, pool', (w', calls'))"
  shows "calls' = calls @ rev (drop (length (dbs pool') - (if e = None then 0 else 1)) (dbs pool))"
  using assms removeAll_loop_logged [of pool "int (length (dbs pool)) - 1" "logged f" "(w, calls)"
      e pool' "(w', calls')" f]
  by (simp add: removeAllFromPool_def)

lemma removeAllFromPool_calls:
  assumes "removeAllFromPool pool (logged f) (w, calls) = (e, pool', (w', calls'))"
  shows "\<exists>k \<le> length (dbs pool).
     dbs pool' = take k (dbs pool) \<and>
     ready pool' = masked k (length (dbs pool)) (ready pool) \<and>
     dirty pool' = masked k (length (dbs pool)) (dirty pool) \<and>
     (e = None \<longrightarrow> k = 0 \<and> calls' = calls @ rev (dbs pool)) \<and>
     (e \<noteq> None \<longrightarrow> 0 < k \<and> calls' = calls @ rev (drop (k - 1) (dbs pool)) \<and>
        (\<exists>v. fst (f (dbs pool ! (k - 1)) v) = e))"
proof -
  from removeAllFromPool_result [OF assms] obtain k where k: "k \<le> length (dbs pool)"
    "dbs pool' = take k (dbs pool)"
    "ready pool' = masked k (length (dbs pool)) (ready pool)"
    "dirty pool' = masked k (length (dbs pool)) (dirty pool)"
    "e = None \<longrightarrow> k = 0"
    "e \<noteq> None \<longrightarrow> 0 < k \<and> (\<exists>v. fst (logged f (dbs pool ! (k - 1)) v) = e)"
    by blast
  have len: "length (dbs pool') = k" using k(1,2) by simp
  from removeAllFromPool_logged [OF assms] len
  have c: "calls' = calls @ rev (drop (k - (if e = None then 0 else 1)) (dbs pool))" by simp
  have "e \<noteq> None \<longrightarrow> (\<exists>v. fst (f (dbs pool ! (k - 1)) v) = e)"
    using k(6) by (auto simp: logged_fst)
  with k c show ?thesis by (intro exI [of _ k]) auto
qed

lemma retry_first_call:
  assumes "dbs pool' = take k (dbs pool)" "0 < k" "k \<le> length (dbs pool)"
    "removeAllFromPool pool' (logged g) (v, []) = (e2, pool2, (v2, calls2))"
  shows "calls2 \<noteq> [] \<and> hd calls2 = dbs pool ! (k - 1)"
proof -
  define xs where "xs = dbs pool'"
  have xs: "xs = take k (dbs pool)" by (simp add: xs_def assms(1))
  have len: "length xs = k" using assms(3) by (simp add: xs)
  have ne: "xs \<noteq> []" using len assms(2) by auto
  have "last xs = xs ! (k - 1)" using ne len by (simp add: last_conv_nth)
  also have "\<dots> = dbs pool ! (k - 1)" unfolding xs using assms(2) by simp
  finally have last: "last xs = dbs pool ! (k - 1)" .
  from removeAllFromPool_calls [OF assms(4)] obtain j where j: "j \<le> length xs"
    "e2 = None \<longrightarrow> calls2 = rev xs"
    "e2 \<noteq> None \<longrightarrow> 0 < j \<and> calls2 = rev (drop (j - 1) xs)"
    unfolding xs_def by auto
  show ?thesis
  proof (cases "e2 = None")
    case True
    with j(2) have "calls2 = rev xs" by simp
    moreover have "xs \<noteq> []" using len assms(2) by auto
    ultimately show ?thesis using last by (simp add: hd_rev)
  next
    case False
    with j(3) have c: "calls2 = rev (drop (j - 1) xs)" and j0: "0 < j" by simp_all
    from j0 j(1) have lt: "j - 1 < length xs" by simp
    then have "last (drop (j - 1) xs) = last xs" by (rule last_drop)
    moreover have "drop (j - 1) xs \<noteq> []" using lt by simp
    ultimately show ?thesis using c last by (simp add: hd_rev)
  qed
qed

lemma RemoveAll_range_logged_ok:
  "distinct order \<Longrightarrow> set order \<subseteq> dom (pools p) \<Longrightarrow>
   RemoveAll_range order p (logged f) (w, calls) = (None, p', (w', calls')) \<Longrightarrow>
   calls' = calls @ calls_of p order \<and>
   pools p' = (\<lambda>h. if h \<in> set order then None else pools p h)"
proof (induction order arbitrary: p w calls)
  case Nil
  then show ?case by (simp add: calls_of_def)
next
  case (Cons hash rest)
  from Cons.prems(2) obtain hp where hp: "pools p hash = Some hp" by auto
  obtain e2 hp' w2 calls2 where
    run: "removeAllFromPool hp (logged f) (w, calls) = (e2, hp', (w2, calls2))"
    by (cases "removeAllFromPool hp (logged f) (w, calls)") auto
  from Cons.prems(3) hp run have e2: "e2 = None"
    by (cases e2) simp_all
  from removeAllFromPool_calls [OF run] e2 have calls2: "calls2 = calls @ rev (dbs hp)" by auto
  let ?p2 = "p\<lparr>pools := (pools p)(hash := None)\<rparr>"
  from Cons.prems(3) hp run e2
  have rest: "RemoveAll_range rest ?p2 (logged f) (w2, calls2) = (None, p', (w', calls'))"
    by simp
  have d: "distinct rest" "hash \<notin> set rest" using Cons.prems(1) by simp_all
  have sub: "set rest \<subseteq> dom (pools ?p2)" using Cons.prems(2) d(2) by auto
  from Cons.IH [OF d(1) sub rest]
  have ih: "calls' = calls2 @ calls_of ?p2 rest"
    "pools p' = (\<lambda>h. if h \<in> set rest then None else pools ?p2 h)" by simp_all
  have "calls_of ?p2 rest = calls_of p rest"
    unfolding calls_of_def using d(2) by (intro arg_cong [where f = concat] map_cong) auto
  with ih(1) calls2 hp have "calls' = calls @ calls_of p (hash # rest)"
    by (simp add: calls_of_def)
  moreover have "pools p' = (\<lambda>h. if h \<in> set (hash # rest) then None else pools p h)"
    using ih(2) by (auto simp: fun_eq_iff)
  ultimately show ?case by simp
qed

lemma RemoveAll_range_logged_error:
  "distinct order \<Longrightarrow> set order \<subseteq> dom (pools p) \<Longrightarrow>
   RemoveAll_range order p (logged f) (w, calls) = (Some err, p', (w', calls')) \<Longrightarrow>
   \<exists>gone hash rest hp hp' k.
     order = gone @ hash # rest \<and> pools p hash = Some hp \<and> 0 < k \<and> k \<le> length (dbs hp) \<and>
     calls' = calls @ calls_of p gone @ rev (drop (k - 1) (dbs hp)) \<and>
     dbs hp' = take k (dbs hp) \<and>
     ready hp' = masked k (length (dbs hp)) (ready hp) \<and>
     dirty hp' = masked k (length (dbs hp)) (dirty hp) \<and>
     pools p' = (\<lambda>h. if h \<in> set gone then None else if h = hash then Some hp' else pools p h)"
proof (induction order arbitrary: p w calls)
  case Nil
  then show ?case by simp
next
  case (Cons hash rest)
  from Cons.prems(2) obtain hp where hp: "pools p hash = Some hp" by auto
  obtain e2 hp' w2 calls2 where
    run: "removeAllFromPool hp (logged f) (w, calls) = (e2, hp', (w2, calls2))"
    by (cases "removeAllFromPool hp (logged f) (w, calls)") auto
  have d: "distinct rest" "hash \<notin> set rest" using Cons.prems(1) by simp_all
  show ?case
  proof (cases e2)
    case (Some err2)
    with Cons.prems(3) hp run have res: "p' = p\<lparr>pools := (pools p)(hash \<mapsto> hp')\<rparr>" "calls' = calls2"
      by simp_all
    from removeAllFromPool_calls [OF run] Some obtain k where k: "k \<le> length (dbs hp)"
      "dbs hp' = take k (dbs hp)" "0 < k" "calls2 = calls @ rev (drop (k - 1) (dbs hp))"
      "ready hp' = masked k (length (dbs hp)) (ready hp)"
      "dirty hp' = masked k (length (dbs hp)) (dirty hp)"
      by auto
    show ?thesis
      apply (rule exI [of _ "[]"], rule exI [of _ hash], rule exI [of _ rest],
          rule exI [of _ hp], rule exI [of _ hp'], rule exI [of _ k])
      using hp k res by (auto simp: calls_of_def fun_eq_iff)
  next
    case None
    from removeAllFromPool_calls [OF run] None have calls2: "calls2 = calls @ rev (dbs hp)" by auto
    let ?p2 = "p\<lparr>pools := (pools p)(hash := None)\<rparr>"
    from Cons.prems(3) hp run None
    have rest: "RemoveAll_range rest ?p2 (logged f) (w2, calls2) = (Some err, p', (w', calls'))"
      by simp
    have sub: "set rest \<subseteq> dom (pools ?p2)" using Cons.prems(2) d(2) by auto
    from Cons.IH [OF d(1) sub rest] obtain gone h2 rest2 hp2 hp2' k where ih:
      "rest = gone @ h2 # rest2" "pools ?p2 h2 = Some hp2" "0 < k" "k \<le> length (dbs hp2)"
      "calls' = calls2 @ calls_of ?p2 gone @ rev (drop (k - 1) (dbs hp2))"
      "dbs hp2' = take k (dbs hp2)"
      "ready hp2' = masked k (length (dbs hp2)) (ready hp2)"
      "dirty hp2' = masked k (length (dbs hp2)) (dirty hp2)"
      "pools p' = (\<lambda>h. if h \<in> set gone then None else if h = h2 then Some hp2' else pools ?p2 h)"
      by blast
    have nd: "hash \<notin> set gone" "h2 \<noteq> hash" using d(2) ih(1) by auto
    have "calls_of ?p2 gone = calls_of p gone"
      unfolding calls_of_def using nd(1) by (intro arg_cong [where f = concat] map_cong) auto
    with ih(5) calls2 hp
    have c: "calls' = calls @ calls_of p (hash # gone) @ rev (drop (k - 1) (dbs hp2))"
      by (simp add: calls_of_def)
    have p2: "pools p h2 = Some hp2" using ih(2) nd(2) by (simp split: if_splits)
    have pl: "pools p' =
        (\<lambda>h. if h \<in> set (hash # gone) then None else if h = h2 then Some hp2' else pools p h)"
      using ih(9) nd by (auto simp: fun_eq_iff)
    show ?thesis
      apply (rule exI [of _ "hash # gone"], rule exI [of _ h2], rule exI [of _ rest2],
          rule exI [of _ hp2], rule exI [of _ hp2'], rule exI [of _ k])
      using ih(1,3,4,6,7,8) c p2 pl by simp
  qed
qed

lemma two_ready_abc_pool: "pools two_ready_abc ''abc'' = Some two_ready"
  by (simp add: two_ready_abc_def two_ready_def slot_abc_001_def)

lemma two_ready_abc_order: "range_order two_ready_abc [''abc'']"
  by (auto simp: range_order_def two_ready_abc_def split: if_splits)

lemma slot_ids: "ID slot_abc_000 = 0" "ID slot_abc_001 = 1"
  by (simp_all add: slot_abc_000_def slot_abc_001_def new_slot_def)

lemma drain_two_ready_ok:
  "removeAllFromPool two_ready (logged always_ok) ((), []) =
     (None, \<lparr>dbs = [], ready = Map.empty, dirty = Map.empty\<rparr>, ((), [slot_abc_001, slot_abc_000]))"
  by (simp add: removeAllFromPool_def removeAll_loop.simps two_ready_def logged_def always_ok_def)

lemma drain_two_ready_failing:
  "removeAllFromPool two_ready (logged (failing_on 0)) ((), []) =
     (Some (ErrCallback ''failed''),
      \<lparr>dbs = [slot_abc_000], ready = [0 \<mapsto> True], dirty = Map.empty\<rparr>,
      ((), [slot_abc_001, slot_abc_000]))"
  by (simp add: removeAllFromPool_def removeAll_loop.simps two_ready_def logged_def failing_on_def
      slot_ids fun_upd_twist)

lemma RemoveAll_two_ready_ok:
  "RemoveAll [''abc''] two_ready_abc (logged always_ok) ((), []) =
     (None, \<lparr>pools = Map.empty, maxPoolSize = 2\<rparr>, ((), [slot_abc_001, slot_abc_000]))"
  by (simp add: RemoveAll_def two_ready_abc_pool drain_two_ready_ok) (simp add: two_ready_abc_def)

lemma RemoveAll_two_ready_failing:
  "RemoveAll [''abc''] two_ready_abc (logged (failing_on 0)) ((), []) =
     (Some (ErrCallback ''failed''), one_ready_abc, ((), [slot_abc_001, slot_abc_000]))"
  by (simp add: RemoveAll_def two_ready_abc_pool drain_two_ready_failing)
    (simp add: two_ready_abc_def one_ready_abc_def)

text \<open>
  C7. With a \<^verbatim>\<open>removeFunc\<close> that records its calls: \<^verbatim>\<open>removeAllFromPool\<close>, which
  \<^verbatim>\<open>RemoveAllWithHash\<close> runs on the pool of the hash and \<^verbatim>\<open>RemoveAll\<close> on every pool in turn,
  calls \<^verbatim>\<open>removeFunc\<close> on the slots from the last to the first. When no call fails, every slot
  is passed once and the pool is left without slots. When the call for slot \<open>k - 1\<close> fails, the
  calls are those for the slots from the last down to \<open>k - 1\<close>, the error is returned, the
  slots from \<open>k\<close> on are gone from \<open>dbs\<close> and their ids from \<open>ready\<close> and \<open>dirty\<close>, and the first
  call of a retry is for slot \<open>k - 1\<close>. \<^verbatim>\<open>RemoveAll\<close> drains the pools in the order of the range
  and deletes each drained pool; at a failure the pools drained so far are deleted and the
  failing pool is left truncated.
\<close>

theorem removeFunc_calls:
  fixes f :: "'w callback" and g :: "'v callback"
  shows
  "(removeAllFromPool pool (logged f) (w, []) = (e, pool', (w', calls)) \<longrightarrow>
      (\<exists>k \<le> length (dbs pool).
         dbs pool' = take k (dbs pool) \<and>
         ready pool' = masked k (length (dbs pool)) (ready pool) \<and>
         dirty pool' = masked k (length (dbs pool)) (dirty pool) \<and>
         (e = None \<longrightarrow> k = 0 \<and> calls = rev (dbs pool)) \<and>
         (e \<noteq> None \<longrightarrow>
            0 < k \<and> calls = rev (drop (k - 1) (dbs pool)) \<and>
            (\<exists>u. fst (f (dbs pool ! (k - 1)) u) = e) \<and>
            (\<forall>v e2 pool2 v2 calls2.
               removeAllFromPool pool' (logged g) (v, []) = (e2, pool2, (v2, calls2)) \<longrightarrow>
               calls2 \<noteq> [] \<and> hd calls2 = dbs pool ! (k - 1))))) \<and>
   (pools p hash = Some pool \<longrightarrow>
      RemoveAllWithHash p hash f w =
        (case removeAllFromPool pool f w of
           (e, pool', w') \<Rightarrow> (e, p\<lparr>pools := (pools p)(hash \<mapsto> pool')\<rparr>, w'))) \<and>
   (range_order p order \<and> RemoveAll order p (logged f) (w, []) = (None, p', (w', calls)) \<longrightarrow>
      calls = calls_of p order \<and> pools p' = Map.empty) \<and>
   (range_order p order \<and> RemoveAll order p (logged f) (w, []) = (Some err, p', (w', calls)) \<longrightarrow>
      (\<exists>gone hash rest hp hp' k.
         order = gone @ hash # rest \<and> pools p hash = Some hp \<and> 0 < k \<and> k \<le> length (dbs hp) \<and>
         calls = calls_of p gone @ rev (drop (k - 1) (dbs hp)) \<and>
         dbs hp' = take k (dbs hp) \<and>
         ready hp' = masked k (length (dbs hp)) (ready hp) \<and>
         dirty hp' = masked k (length (dbs hp)) (dirty hp) \<and>
         pools p' =
           (\<lambda>h. if h \<in> set gone then None else if h = hash then Some hp' else pools p h)))"
proof (intro conjI impI)
  assume run: "removeAllFromPool pool (logged f) (w, []) = (e, pool', (w', calls))"
  from removeAllFromPool_calls [OF run] obtain k where k: "k \<le> length (dbs pool)"
    "dbs pool' = take k (dbs pool)"
    "ready pool' = masked k (length (dbs pool)) (ready pool)"
    "dirty pool' = masked k (length (dbs pool)) (dirty pool)"
    "e = None \<longrightarrow> k = 0 \<and> calls = rev (dbs pool)"
    "e \<noteq> None \<longrightarrow> 0 < k \<and> calls = rev (drop (k - 1) (dbs pool)) \<and>
        (\<exists>u. fst (f (dbs pool ! (k - 1)) u) = e)"
    by auto
  have retry: "e \<noteq> None \<longrightarrow> (\<forall>v e2 pool2 v2 calls2.
      removeAllFromPool pool' (logged g) (v, []) = (e2, pool2, (v2, calls2)) \<longrightarrow>
      calls2 \<noteq> [] \<and> hd calls2 = dbs pool ! (k - 1))"
  proof (intro impI allI)
    fix v e2 pool2 v2 calls2
    assume "e \<noteq> None"
      and r2: "removeAllFromPool pool' (logged g) (v, []) = (e2, pool2, (v2, calls2))"
    with k(6) have "0 < k" by simp
    from retry_first_call [OF k(2) this k(1) r2]
    show "calls2 \<noteq> [] \<and> hd calls2 = dbs pool ! (k - 1)" .
  qed
  show "\<exists>k \<le> length (dbs pool).
         dbs pool' = take k (dbs pool) \<and>
         ready pool' = masked k (length (dbs pool)) (ready pool) \<and>
         dirty pool' = masked k (length (dbs pool)) (dirty pool) \<and>
         (e = None \<longrightarrow> k = 0 \<and> calls = rev (dbs pool)) \<and>
         (e \<noteq> None \<longrightarrow>
            0 < k \<and> calls = rev (drop (k - 1) (dbs pool)) \<and>
            (\<exists>u. fst (f (dbs pool ! (k - 1)) u) = e) \<and>
            (\<forall>v e2 pool2 v2 calls2.
               removeAllFromPool pool' (logged g) (v, []) = (e2, pool2, (v2, calls2)) \<longrightarrow>
               calls2 \<noteq> [] \<and> hd calls2 = dbs pool ! (k - 1)))"
    using k retry by (intro exI [of _ k]) blast
next
  assume "pools p hash = Some pool"
  then show "RemoveAllWithHash p hash f w =
        (case removeAllFromPool pool f w of
           (e, pool', w') \<Rightarrow> (e, p\<lparr>pools := (pools p)(hash \<mapsto> pool')\<rparr>, w'))"
    by (simp add: RemoveAllWithHash_def)
next
  assume a: "range_order p order \<and>
    RemoveAll order p (logged f) (w, []) = (None, p', (w', calls))"
  then have d: "distinct order" "set order \<subseteq> dom (pools p)" "set order = dom (pools p)"
    by (simp_all add: range_order_def)
  from a have "RemoveAll_range order p (logged f) (w, []) = (None, p', (w', calls))"
    by (simp add: RemoveAll_def)
  from RemoveAll_range_logged_ok [OF d(1,2) this]
  have r: "calls = calls_of p order"
    "pools p' = (\<lambda>h. if h \<in> set order then None else pools p h)" by simp_all
  show "calls = calls_of p order" by (rule r(1))
  show "pools p' = Map.empty" unfolding r(2) d(3) by (auto simp: fun_eq_iff)
next
  assume a: "range_order p order \<and>
    RemoveAll order p (logged f) (w, []) = (Some err, p', (w', calls))"
  then have d: "distinct order" "set order \<subseteq> dom (pools p)"
    by (simp_all add: range_order_def)
  from a have "RemoveAll_range order p (logged f) (w, []) = (Some err, p', (w', calls))"
    by (simp add: RemoveAll_def)
  from RemoveAll_range_logged_error [OF d this]
  show "\<exists>gone hash rest hp hp' k.
         order = gone @ hash # rest \<and> pools p hash = Some hp \<and> 0 < k \<and> k \<le> length (dbs hp) \<and>
         calls = calls_of p gone @ rev (drop (k - 1) (dbs hp)) \<and>
         dbs hp' = take k (dbs hp) \<and>
         ready hp' = masked k (length (dbs hp)) (ready hp) \<and>
         dirty hp' = masked k (length (dbs hp)) (dirty hp) \<and>
         pools p' =
           (\<lambda>h. if h \<in> set gone then None else if h = hash then Some hp' else pools p h)"
    by simp
qed

theorem removeFunc_calls_witness:
  "rev (dbs two_ready) = [slot_abc_001, slot_abc_000] \<and>
   fst (removeAllFromPool two_ready (logged (failing_on 0)) ((), [])) = Some (ErrCallback ''failed'') \<and>
   rev (drop 0 (dbs two_ready)) = [slot_abc_001, slot_abc_000] \<and>
   RemoveAllWithHash two_ready_abc ''abc'' always_ok () =
     (None, two_ready_abc\<lparr>pools := (pools two_ready_abc)(''abc'' \<mapsto>
        \<lparr>dbs = [], ready = Map.empty, dirty = Map.empty\<rparr>)\<rparr>, ()) \<and>
   calls_of two_ready_abc [''abc''] = [slot_abc_001, slot_abc_000] \<and>
   fst (RemoveAll [''abc''] two_ready_abc (logged (failing_on 0)) ((), [])) =
     Some (ErrCallback ''failed'')"
proof -
  note i1 = removeFunc_calls [where pool = two_ready and f = always_ok and w = "()"
      and g = "always_ok :: unit callback", THEN conjunct1, THEN mp, OF drain_two_ready_ok]
  note i2 = removeFunc_calls [where pool = two_ready and f = "failing_on 0" and w = "()"
      and g = "always_ok :: unit callback", THEN conjunct1, THEN mp, OF drain_two_ready_failing]
  note i3 = removeFunc_calls [where p = two_ready_abc and hash = "''abc''" and f = always_ok
      and w = "()" and g = "always_ok :: unit callback",
      THEN conjunct2, THEN conjunct1, THEN mp, OF two_ready_abc_pool]
  note i4 = removeFunc_calls [where p = two_ready_abc and order = "[''abc'']" and f = always_ok
      and w = "()" and g = "always_ok :: unit callback",
      THEN conjunct2, THEN conjunct2, THEN conjunct1, THEN mp,
      OF conjI [OF two_ready_abc_order RemoveAll_two_ready_ok]]
  note i5 = removeFunc_calls [where p = two_ready_abc and order = "[''abc'']"
      and f = "failing_on 0" and w = "()" and g = "always_ok :: unit callback",
      THEN conjunct2, THEN conjunct2, THEN conjunct2, THEN mp,
      OF conjI [OF two_ready_abc_order RemoveAll_two_ready_failing]]
  have 1: "rev (dbs two_ready) = [slot_abc_001, slot_abc_000]" using i1 by auto
  have 2: "fst (removeAllFromPool two_ready (logged (failing_on 0)) ((), [])) =
      Some (ErrCallback ''failed'')" using i2 by (simp add: drain_two_ready_failing)
  have 3: "rev (drop 0 (dbs two_ready)) = [slot_abc_001, slot_abc_000]" using 1 by simp
  have 4: "RemoveAllWithHash two_ready_abc ''abc'' always_ok () =
     (None, two_ready_abc\<lparr>pools := (pools two_ready_abc)(''abc'' \<mapsto>
        \<lparr>dbs = [], ready = Map.empty, dirty = Map.empty\<rparr>)\<rparr>, ())"
    using i3 by (simp add: removeAllFromPool_def removeAll_loop.simps two_ready_def always_ok_def)
  have 5: "calls_of two_ready_abc [''abc''] = [slot_abc_001, slot_abc_000]"
    using i4 by simp
  have 6: "fst (RemoveAll [''abc''] two_ready_abc (logged (failing_on 0)) ((), [])) =
     Some (ErrCallback ''failed'')" using i5 by (simp add: RemoveAll_two_ready_failing)
  from 1 2 3 4 5 6 show ?thesis by simp
qed

end
